theory Spec2Isabelle
  imports Complex_Main
begin

section \<open>The preload bridge of the background window\<close>

text \<open>
  \<^verbatim>\<open>src/background/preload.ts\<close> builds the object \<^verbatim>\<open>api\<close> and exposes it to the
  renderer. Two of its five functions only send a message; the other three create a
  promise, send a message and register a listener on the reply channel of the operation.
  The embedding below keeps the renderer-side state these functions touch: the messages
  handed to \<^verbatim>\<open>ipcRenderer.send\<close>, the listeners handed to \<^verbatim>\<open>ipcRenderer.on\<close>, and the
  promises created by \<^verbatim>\<open>new Promise\<close>.
\<close>

subsection \<open>Values that cross the process boundary\<close>

text \<open>
  Arguments of IPC messages are structured clones: primitives, arrays and plain objects,
  never functions or thenables. Numbers are kept as rationals together with the three
  non-finite doubles (every finite double is a rational; the two zeros are not told
  apart, and the code below does not tell them apart either).
\<close>

datatype jsnum = NaN | PosInfinity | NegInfinity | Finite rat

datatype jsval =
    Undefined
  | Null
  | Bool bool
  | Num jsnum
  | BigInt int
  | Str string
  | Arr "jsval list"
  | Obj "(string \<times> jsval) list"

text \<open>\<^verbatim>\<open>if (error)\<close>: the ToBoolean conversion of JavaScript.\<close>

fun truthy :: "jsval \<Rightarrow> bool" where
  "truthy Undefined = False"
| "truthy Null = False"
| "truthy (Bool b) = b"
| "truthy (Num NaN) = False"
| "truthy (Num PosInfinity) = True"
| "truthy (Num NegInfinity) = True"
| "truthy (Num (Finite q)) = (q \<noteq> 0)"
| "truthy (BigInt i) = (i \<noteq> 0)"
| "truthy (Str s) = (s \<noteq> [])"
| "truthy (Arr xs) = True"
| "truthy (Obj ps) = True"

text \<open>\<^verbatim>\<open>result != null\<close>: loose inequality, false exactly for \<^verbatim>\<open>null\<close> and \<^verbatim>\<open>undefined\<close>.\<close>

fun not_nullish :: "jsval \<Rightarrow> bool" where
  "not_nullish Undefined = False"
| "not_nullish Null = False"
| "not_nullish v = True"

subsection \<open>Channels, promises and listeners\<close>

text \<open>
  The members of the enum \<^verbatim>\<open>Channel\<close> that the file uses. The table
  \<^verbatim>\<open>REPLY_BY_CHANNEL\<close> lives in \<^verbatim>\<open>./constants\<close>; every function that reads it takes it
  as the parameter \<open>rbc\<close>, and nothing is assumed about it (two operations may even
  share a reply channel).
\<close>

datatype channel =
    ENABLE_AUTOSTART
  | DISABLE_AUTOSTART
  | GET_AUTOSTART_STATUS
  | GET_USER_SETTINGS
  | SAVE_USER_SETTINGS

datatype promise_state = Pending | Fulfilled jsval | Rejected jsval

text \<open>
  The three arrow functions passed to \<^verbatim>\<open>ipcRenderer.on\<close>, each closed over the
  \<^verbatim>\<open>resolve\<close> and \<^verbatim>\<open>reject\<close> of one promise, which is named by its index in the store.
\<close>

datatype listener =
    AutostartStatusReply nat
  | UserSettingsReply nat
  | SaveSettingsReply nat

fun handle :: "listener \<Rightarrow> nat" where
  "handle (AutostartStatusReply p) = p"
| "handle (UserSettingsReply p) = p"
| "handle (SaveSettingsReply p) = p"

record renderer =
  sent :: "(channel \<times> jsval list) list"
  listeners :: "(string \<times> listener) list"
  promises :: "promise_state list"

definition init :: renderer where
  "init = \<lparr>sent = [], listeners = [], promises = []\<rparr>"

text \<open>
  \<^verbatim>\<open>ipcRenderer.send(channel, ...args)\<close>. It throws only for an argument that cannot
  be cloned; the arguments here are of type \<open>jsval\<close>, so the send always succeeds.
\<close>

definition ipc_send :: "channel \<Rightarrow> jsval list \<Rightarrow> renderer \<Rightarrow> renderer" where
  "ipc_send c args s = s\<lparr>sent := sent s @ [(c, args)]\<rparr>"

text \<open>\<^verbatim>\<open>ipcRenderer.on(channel, listener)\<close>: the listener is appended and stays.\<close>

definition ipc_on :: "string \<Rightarrow> listener \<Rightarrow> renderer \<Rightarrow> renderer" where
  "ipc_on c l s = s\<lparr>listeners := listeners s @ [(c, l)]\<rparr>"

text \<open>\<^verbatim>\<open>new Promise\<close>: a fresh pending promise; its handle is its index.\<close>

definition new_promise :: "renderer \<Rightarrow> nat \<times> renderer" where
  "new_promise s = (length (promises s), s\<lparr>promises := promises s @ [Pending]\<rparr>)"

text \<open>
  The resolving functions of a promise: the first call settles it, every later call of
  either one does nothing. The values passed here are clones, so \<^verbatim>\<open>resolve\<close> never
  meets a thenable.
\<close>

definition settle :: "nat \<Rightarrow> promise_state \<Rightarrow> renderer \<Rightarrow> renderer" where
  "settle p st s =
     (if p < length (promises s) \<and> promises s ! p = Pending
      then s\<lparr>promises := (promises s)[p := st]\<rparr> else s)"

definition resolve :: "nat \<Rightarrow> jsval \<Rightarrow> renderer \<Rightarrow> renderer" where
  "resolve p v s = settle p (Fulfilled v) s"

definition reject :: "nat \<Rightarrow> jsval \<Rightarrow> renderer \<Rightarrow> renderer" where
  "reject p v s = settle p (Rejected v) s"

subsection \<open>The functions of \<^verbatim>\<open>api\<close>\<close>

text \<open>A block-bodied arrow function without \<^verbatim>\<open>return\<close> yields \<^verbatim>\<open>undefined\<close>.\<close>

definition enableAutostart :: "renderer \<Rightarrow> jsval \<times> renderer" where
  "enableAutostart s = (Undefined, ipc_send ENABLE_AUTOSTART [] s)"

definition disableAutostart :: "renderer \<Rightarrow> jsval \<times> renderer" where
  "disableAutostart s = (Undefined, ipc_send DISABLE_AUTOSTART [] s)"

text \<open>
  The executor of \<^verbatim>\<open>new Promise\<close> runs at once: send, then register. The function
  returns the handle of the promise.
\<close>

definition autostartTaskExist :: "(channel \<Rightarrow> string) \<Rightarrow> renderer \<Rightarrow> nat \<times> renderer" where
  "autostartTaskExist rbc s =
     (let (p, s1) = new_promise s;
          s2 = ipc_send GET_AUTOSTART_STATUS [] s1;
          s3 = ipc_on (rbc GET_AUTOSTART_STATUS) (AutostartStatusReply p) s2
      in (p, s3))"

text \<open>
  \<^verbatim>\<open>route\<close> is optional; when it is left out \<^verbatim>\<open>undefined\<close> is sent in its place.
  The function is declared \<^verbatim>\<open>async\<close>, so its caller holds a promise that adopts the one
  built in the body and settles as that one does; the model returns the latter.
\<close>

definition getUserSettings ::
  "(channel \<Rightarrow> string) \<Rightarrow> string option \<Rightarrow> renderer \<Rightarrow> nat \<times> renderer" where
  "getUserSettings rbc route s =
     (let (p, s1) = new_promise s;
          s2 = ipc_send GET_USER_SETTINGS
                 [case route of None \<Rightarrow> Undefined | Some r \<Rightarrow> Str r] s1;
          s3 = ipc_on (rbc GET_USER_SETTINGS) (UserSettingsReply p) s2
      in (p, s3))"

definition saveUserSettings ::
  "(channel \<Rightarrow> string) \<Rightarrow> jsval \<Rightarrow> renderer \<Rightarrow> nat \<times> renderer" where
  "saveUserSettings rbc settings s =
     (let (p, s1) = new_promise s;
          s2 = ipc_send SAVE_USER_SETTINGS [settings] s1;
          s3 = ipc_on (rbc SAVE_USER_SETTINGS) (SaveSettingsReply p) s2
      in (p, s3))"

text \<open>The bodies of the listeners, \<^verbatim>\<open>(e, result, error) => { ... }\<close>.\<close>

fun on_reply :: "listener \<Rightarrow> jsval \<Rightarrow> jsval \<Rightarrow> renderer \<Rightarrow> renderer" where
  "on_reply (AutostartStatusReply p) result error s =
     (if truthy error then reject p error s
      else resolve p (Bool (not_nullish result)) s)"
| "on_reply (UserSettingsReply p) result error s =
     (if truthy error then reject p error s
      else resolve p result s)"
| "on_reply (SaveSettingsReply p) result error s =
     (if truthy error then reject p error s
      else resolve p Undefined s)"

subsection \<open>The event loop seen from the renderer\<close>

text \<open>
  A message from the privileged process on channel \<open>c\<close> with arguments
  \<^verbatim>\<open>(result, error)\<close> calls every listener registered on \<open>c\<close>, in the order of
  registration. A missing argument is \<^verbatim>\<open>undefined\<close>.
\<close>

definition dispatch :: "string \<Rightarrow> jsval \<Rightarrow> jsval \<Rightarrow> (string \<times> listener) \<Rightarrow> renderer \<Rightarrow> renderer" where
  "dispatch c result error cl s =
     (if fst cl = c then on_reply (snd cl) result error s else s)"

definition deliver :: "string \<Rightarrow> jsval \<Rightarrow> jsval \<Rightarrow> renderer \<Rightarrow> renderer" where
  "deliver c result error s = fold (dispatch c result error) (listeners s) s"

text \<open>
  What can happen to the renderer: the page calls one of the five functions, or the
  privileged process sends a message. The file has no other entry point: no timer, no
  cancellation, no removal of a listener.
\<close>

datatype event =
    CallEnableAutostart
  | CallDisableAutostart
  | CallAutostartTaskExist
  | CallGetUserSettings "string option"
  | CallSaveUserSettings jsval
  | Deliver string jsval jsval

fun step :: "(channel \<Rightarrow> string) \<Rightarrow> event \<Rightarrow> renderer \<Rightarrow> renderer" where
  "step rbc CallEnableAutostart s = snd (enableAutostart s)"
| "step rbc CallDisableAutostart s = snd (disableAutostart s)"
| "step rbc CallAutostartTaskExist s = snd (autostartTaskExist rbc s)"
| "step rbc (CallGetUserSettings route) s = snd (getUserSettings rbc route s)"
| "step rbc (CallSaveUserSettings settings) s = snd (saveUserSettings rbc settings s)"
| "step rbc (Deliver c result error) s = deliver c result error s"

fun run :: "(channel \<Rightarrow> string) \<Rightarrow> event list \<Rightarrow> renderer \<Rightarrow> renderer" where
  "run rbc [] s = s"
| "run rbc (ev # evs) s = run rbc evs (step rbc ev s)"

text \<open>
  Every listener belongs to a promise that exists. This holds at start and is kept by
  every event.
\<close>

definition handles_ok :: "renderer \<Rightarrow> bool" where
  "handles_ok s = list_all (\<lambda>cl. handle (snd cl) < length (promises s)) (listeners s)"

text \<open>
  A reply table for the concrete runs below. Its names are placeholders, one per channel;
  every general theorem is stated for an arbitrary table \<open>rbc\<close>.
\<close>

fun reply_names :: "channel \<Rightarrow> string" where
  "reply_names ENABLE_AUTOSTART = ''enable-autostart-reply''"
| "reply_names DISABLE_AUTOSTART = ''disable-autostart-reply''"
| "reply_names GET_AUTOSTART_STATUS = ''get-autostart-status-reply''"
| "reply_names GET_USER_SETTINGS = ''get-user-settings-reply''"
| "reply_names SAVE_USER_SETTINGS = ''save-user-settings-reply''"

text \<open>What a listener makes of a reply: the state it tries to put its promise in.\<close>

fun outcome :: "listener \<Rightarrow> jsval \<Rightarrow> jsval \<Rightarrow> promise_state" where
  "outcome (AutostartStatusReply p) result error =
     (if truthy error then Rejected error else Fulfilled (Bool (not_nullish result)))"
| "outcome (UserSettingsReply p) result error =
     (if truthy error then Rejected error else Fulfilled result)"
| "outcome (SaveSettingsReply p) result error =
     (if truthy error then Rejected error else Fulfilled Undefined)"

text \<open>
  The state right after a request-response function has run: one more promise, one more
  message, one more listener, whose promise is the new one.
\<close>

definition requested :: "(channel \<times> jsval list) \<Rightarrow> string \<Rightarrow> listener \<Rightarrow> renderer \<Rightarrow> renderer" where
  "requested msg c l s =
     s\<lparr>sent := sent s @ [msg], listeners := listeners s @ [(c, l)],
       promises := promises s @ [Pending]\<rparr>"

text \<open>Whether an event is a message from the privileged process on channel \<open>c\<close>.\<close>

fun delivers_on :: "string \<Rightarrow> event \<Rightarrow> bool" where
  "delivers_on c (Deliver c' result error) = (c' = c)"
| "delivers_on c ev = False"

text \<open>
  Promise \<open>p\<close> exists, and every listener that can settle it satisfies \<open>Q\<close>.
\<close>

definition owned :: "nat \<Rightarrow> (string \<times> listener \<Rightarrow> bool) \<Rightarrow> renderer \<Rightarrow> bool" where
  "owned p Q s =
     (p < length (promises s) \<and> handles_ok s \<and>
      list_all (\<lambda>cl. handle (snd cl) = p \<longrightarrow> Q cl) (listeners s))"


text \<open>Two payloads for concrete runs: a settings object and an error object.\<close>

definition dark_theme :: jsval where
  "dark_theme = Obj [(''theme'', Str ''dark'')]"


section \<open>Auxiliary facts\<close>

subsection \<open>Settling a promise\<close>

lemma settle_sent [simp]: "sent (settle p st s) = sent s"
  by (simp add: settle_def)

lemma settle_listeners [simp]: "listeners (settle p st s) = listeners s"
  by (simp add: settle_def)

lemma settle_length [simp]: "length (promises (settle p st s)) = length (promises s)"
  by (simp add: settle_def)

lemma settle_other: "q \<noteq> p \<Longrightarrow> promises (settle p st s) ! q = promises s ! q"
  by (simp add: settle_def)

lemma settle_settled:
  "promises s ! q \<noteq> Pending \<Longrightarrow> promises (settle p st s) ! q = promises s ! q"
  by (cases "q = p") (auto simp: settle_def)

lemma settle_pending:
  "p < length (promises s) \<Longrightarrow> promises s ! p = Pending \<Longrightarrow>
   promises (settle p st s) ! p = st"
  by (simp add: settle_def)

lemma on_reply_settle: "on_reply l result error s = settle (handle l) (outcome l result error) s"
  by (cases l) (simp_all add: resolve_def reject_def)

subsection \<open>Delivering a message\<close>

lemma fold_dispatch_frame:
  "sent (fold (dispatch c r e) ls s) = sent s \<and>
   listeners (fold (dispatch c r e) ls s) = listeners s \<and>
   length (promises (fold (dispatch c r e) ls s)) = length (promises s)"
  by (induction ls arbitrary: s) (simp_all add: dispatch_def on_reply_settle)

lemma fold_dispatch_other:
  "list_all (\<lambda>cl. fst cl = c \<longrightarrow> handle (snd cl) \<noteq> p) ls \<Longrightarrow>
   promises (fold (dispatch c r e) ls s) ! p = promises s ! p"
proof (induction ls arbitrary: s)
  case Nil
  show ?case by simp
next
  case (Cons cl ls)
  have "promises (dispatch c r e cl s) ! p = promises s ! p"
    using Cons.prems by (auto simp: dispatch_def on_reply_settle settle_other)
  with Cons show ?case by simp
qed

lemma fold_dispatch_settled:
  "promises s ! p \<noteq> Pending \<Longrightarrow>
   promises (fold (dispatch c r e) ls s) ! p = promises s ! p"
proof (induction ls arbitrary: s)
  case Nil
  show ?case by simp
next
  case (Cons cl ls)
  have "promises (dispatch c r e cl s) ! p = promises s ! p"
    using Cons.prems by (simp add: dispatch_def on_reply_settle settle_settled)
  with Cons show ?case by simp
qed

lemma deliver_sent [simp]: "sent (deliver c r e s) = sent s"
  by (simp add: deliver_def fold_dispatch_frame)

lemma deliver_listeners [simp]: "listeners (deliver c r e s) = listeners s"
  by (simp add: deliver_def fold_dispatch_frame)

lemma deliver_length [simp]: "length (promises (deliver c r e s)) = length (promises s)"
  by (simp add: deliver_def fold_dispatch_frame)

lemma deliver_settled:
  "promises s ! p \<noteq> Pending \<Longrightarrow> promises (deliver c r e s) ! p = promises s ! p"
  by (simp add: deliver_def fold_dispatch_settled)

lemma deliver_other:
  "list_all (\<lambda>cl. fst cl = c \<longrightarrow> handle (snd cl) \<noteq> p) (listeners s) \<Longrightarrow>
   promises (deliver c r e s) ! p = promises s ! p"
  by (simp add: deliver_def fold_dispatch_other)

subsection \<open>A request in flight\<close>

lemma autostartTaskExist_requested:
  "autostartTaskExist rbc s =
     (length (promises s),
      requested (GET_AUTOSTART_STATUS, []) (rbc GET_AUTOSTART_STATUS)
        (AutostartStatusReply (length (promises s))) s)"
  by (simp add: autostartTaskExist_def new_promise_def ipc_send_def ipc_on_def requested_def)

lemma getUserSettings_requested:
  "getUserSettings rbc route s =
     (length (promises s),
      requested (GET_USER_SETTINGS, [case route of None \<Rightarrow> Undefined | Some r \<Rightarrow> Str r])
        (rbc GET_USER_SETTINGS) (UserSettingsReply (length (promises s))) s)"
  by (simp add: getUserSettings_def new_promise_def ipc_send_def ipc_on_def requested_def)

lemma saveUserSettings_requested:
  "saveUserSettings rbc settings s =
     (length (promises s),
      requested (SAVE_USER_SETTINGS, [settings]) (rbc SAVE_USER_SETTINGS)
        (SaveSettingsReply (length (promises s))) s)"
  by (simp add: saveUserSettings_def new_promise_def ipc_send_def ipc_on_def requested_def)

lemma handles_ok_fresh:
  "handles_ok s \<Longrightarrow>
   list_all (\<lambda>cl. fst cl = c \<longrightarrow> handle (snd cl) \<noteq> length (promises s)) (listeners s)"
  by (auto simp: handles_ok_def list_all_iff)


subsection \<open>Listeners and their promises\<close>

lemma handles_ok_init: "handles_ok init"
  by (simp add: handles_ok_def init_def)

lemma handles_ok_requested:
  "handles_ok s \<Longrightarrow> handle l = length (promises s) \<Longrightarrow> handles_ok (requested msg c l s)"
  by (auto simp: handles_ok_def requested_def list_all_iff)

lemma handles_ok_deliver: "handles_ok s \<Longrightarrow> handles_ok (deliver c r e s)"
  by (simp add: handles_ok_def)

lemma handles_ok_step: "handles_ok s \<Longrightarrow> handles_ok (step rbc ev s)"
proof (cases ev)
  case CallEnableAutostart
  assume "handles_ok s"
  then show ?thesis using CallEnableAutostart
    by (simp add: enableAutostart_def ipc_send_def handles_ok_def)
next
  case CallDisableAutostart
  assume "handles_ok s"
  then show ?thesis using CallDisableAutostart
    by (simp add: disableAutostart_def ipc_send_def handles_ok_def)
next
  case CallAutostartTaskExist
  assume "handles_ok s"
  then show ?thesis using CallAutostartTaskExist
    by (simp add: autostartTaskExist_requested handles_ok_requested)
next
  case (CallGetUserSettings route)
  assume "handles_ok s"
  then show ?thesis using CallGetUserSettings
    by (simp add: getUserSettings_requested handles_ok_requested)
next
  case (CallSaveUserSettings settings)
  assume "handles_ok s"
  then show ?thesis using CallSaveUserSettings
    by (simp add: saveUserSettings_requested handles_ok_requested)
next
  case (Deliver c r e)
  assume "handles_ok s"
  then show ?thesis using Deliver
    by (simp add: handles_ok_deliver)
qed

lemma handles_ok_run: "handles_ok s \<Longrightarrow> handles_ok (run rbc evs s)"
  by (induction evs arbitrary: s) (simp_all add: handles_ok_step)

lemma handles_ok_history: "handles_ok (run rbc history init)"
  by (simp add: handles_ok_run handles_ok_init)


subsection \<open>Outcomes\<close>

lemma outcome_not_pending [simp]: "outcome l r e \<noteq> Pending"
  by (cases l) simp_all


lemma absent_not_truthy: "\<not> not_nullish v \<Longrightarrow> \<not> truthy v"
  by (cases v) simp_all


subsection \<open>What one delivery can do to one promise\<close>




lemma settle_promises_cong:
  "promises s = promises t \<Longrightarrow> promises (settle p st s) = promises (settle p st t)"
  by (simp add: settle_def)

lemma fold_dispatch_promises_cong:
  "promises s = promises t \<Longrightarrow>
   promises (fold (dispatch c r e) ls s) = promises (fold (dispatch c r e) ls t)"
proof (induction ls arbitrary: s t)
  case Nil
  then show ?case by simp
next
  case (Cons cl ls)
  from Cons.prems have "promises (dispatch c r e cl s) = promises (dispatch c r e cl t)"
    using settle_promises_cong [of s t] by (simp add: dispatch_def on_reply_settle)
  from Cons.IH [OF this] show ?case by simp
qed

subsection \<open>Steps and runs\<close>

lemma run_append: "run rbc (xs @ ys) s = run rbc ys (run rbc xs s)"
  by (induction xs arbitrary: s) simp_all

lemma step_call_keeps:
  "p < length (promises s) \<Longrightarrow>
   (case ev of Deliver c r e \<Rightarrow> True
    | _ \<Rightarrow> promises (step rbc ev s) ! p = promises s ! p)"
  by (cases ev)
     (simp_all add: enableAutostart_def disableAutostart_def ipc_send_def
        autostartTaskExist_requested getUserSettings_requested saveUserSettings_requested
        requested_def nth_append)

lemma step_length: "length (promises s) \<le> length (promises (step rbc ev s))"
  by (cases ev)
     (simp_all add: enableAutostart_def disableAutostart_def ipc_send_def
        autostartTaskExist_requested getUserSettings_requested saveUserSettings_requested
        requested_def)

lemma step_settled:
  assumes "p < length (promises s)" and "promises s ! p \<noteq> Pending"
  shows "promises (step rbc ev s) ! p = promises s ! p"
proof (cases ev)
  case (Deliver c r e)
  then show ?thesis using assms(2) by (simp add: deliver_settled)
qed (use step_call_keeps [OF assms(1), where ev = ev and rbc = rbc] in simp_all)

lemma run_settled:
  "p < length (promises s) \<Longrightarrow> promises s ! p \<noteq> Pending \<Longrightarrow>
   promises (run rbc evs s) ! p = promises s ! p"
proof (induction evs arbitrary: s)
  case Nil
  show ?case by simp
next
  case (Cons ev evs)
  have keep: "promises (step rbc ev s) ! p = promises s ! p"
    using Cons.prems by (rule step_settled)
  have "p < length (promises (step rbc ev s))"
    using Cons.prems(1) step_length [where s = s and rbc = rbc and ev = ev] by simp
  then have "promises (run rbc evs (step rbc ev s)) ! p = promises (step rbc ev s) ! p"
    using keep Cons.prems(2) by (intro Cons.IH) simp_all
  then show ?case using keep by simp
qed

lemma run_length: "length (promises s) \<le> length (promises (run rbc evs s))"
proof (induction evs arbitrary: s)
  case Nil
  show ?case by simp
next
  case (Cons ev evs)
  show ?case using step_length [where s = s and rbc = rbc and ev = ev] Cons [of "step rbc ev s"] by simp
qed

lemma step_frame:
  assumes "promises s = promises t" and "listeners s = listeners t"
  shows "promises (step rbc ev s) = promises (step rbc ev t) \<and>
         listeners (step rbc ev s) = listeners (step rbc ev t)"
proof (cases ev)
  case (Deliver c r e)
  then show ?thesis
    using assms fold_dispatch_promises_cong [OF assms(1), of c r e "listeners t"]
    by (simp add: deliver_def fold_dispatch_frame)
qed (use assms in \<open>simp_all add: enableAutostart_def disableAutostart_def ipc_send_def
        autostartTaskExist_requested getUserSettings_requested saveUserSettings_requested
        requested_def\<close>)

lemma run_frame:
  "promises s = promises t \<Longrightarrow> listeners s = listeners t \<Longrightarrow>
   promises (run rbc evs s) = promises (run rbc evs t) \<and>
   listeners (run rbc evs s) = listeners (run rbc evs t)"
proof (induction evs arbitrary: s t)
  case Nil
  then show ?case by simp
next
  case (Cons ev evs)
  from step_frame [OF Cons.prems] show ?case
    using Cons.IH [of "step rbc ev s" "step rbc ev t"] by simp
qed

lemma step_listeners_grow: "\<exists>extra. listeners (step rbc ev s) = listeners s @ extra"
  by (cases ev)
     (simp_all add: enableAutostart_def disableAutostart_def ipc_send_def
        autostartTaskExist_requested getUserSettings_requested saveUserSettings_requested
        requested_def)

lemma run_listeners_grow: "\<exists>extra. listeners (run rbc evs s) = listeners s @ extra"
proof (induction evs arbitrary: s)
  case Nil
  show ?case by simp
next
  case (Cons ev evs)
  obtain m1 where "listeners (step rbc ev s) = listeners s @ m1"
    using step_listeners_grow by blast
  moreover obtain m2 where
    "listeners (run rbc evs (step rbc ev s)) = listeners (step rbc ev s) @ m2"
    using Cons by blast
  ultimately show ?case by simp
qed

subsection \<open>The listeners of one promise\<close>

lemma owned_requested_new:
  "handles_ok s \<Longrightarrow> handle l = length (promises s) \<Longrightarrow> Q (c, l) \<Longrightarrow>
   owned (length (promises s)) Q (requested msg c l s)"
  by (auto simp: owned_def handles_ok_def requested_def list_all_iff)

lemma owned_requested:
  "owned p Q s \<Longrightarrow> handle l = length (promises s) \<Longrightarrow> owned p Q (requested msg c l s)"
  by (auto simp: owned_def handles_ok_def requested_def list_all_iff)

lemma owned_step: "owned p Q s \<Longrightarrow> owned p Q (step rbc ev s)"
proof (cases ev)
  case CallEnableAutostart
  assume "owned p Q s"
  then show ?thesis using CallEnableAutostart
    by (simp add: enableAutostart_def ipc_send_def owned_def handles_ok_def)
next
  case CallDisableAutostart
  assume "owned p Q s"
  then show ?thesis using CallDisableAutostart
    by (simp add: disableAutostart_def ipc_send_def owned_def handles_ok_def)
next
  case CallAutostartTaskExist
  assume "owned p Q s"
  then show ?thesis using CallAutostartTaskExist
    by (simp add: autostartTaskExist_requested owned_requested)
next
  case (CallGetUserSettings route)
  assume "owned p Q s"
  then show ?thesis using CallGetUserSettings
    by (simp add: getUserSettings_requested owned_requested)
next
  case (CallSaveUserSettings settings)
  assume "owned p Q s"
  then show ?thesis using CallSaveUserSettings
    by (simp add: saveUserSettings_requested owned_requested)
next
  case (Deliver c r e)
  assume "owned p Q s"
  then show ?thesis using Deliver
    by (simp add: owned_def handles_ok_def)
qed

lemma owned_silent_step:
  assumes own: "owned p (\<lambda>cl. fst cl = c) s" and quiet: "\<not> delivers_on c ev"
  shows "promises (step rbc ev s) ! p = promises s ! p"
proof (cases ev)
  case (Deliver c' r e)
  with quiet have "c' \<noteq> c" by simp
  with own have "list_all (\<lambda>cl. fst cl = c' \<longrightarrow> handle (snd cl) \<noteq> p) (listeners s)"
    by (auto simp: owned_def list_all_iff)
  then show ?thesis using Deliver by (simp add: deliver_other)
qed (use own step_call_keeps [where p = p and s = s and ev = ev and rbc = rbc] in \<open>simp_all add: owned_def\<close>)

lemma owned_silent_run:
  "owned p (\<lambda>cl. fst cl = c) s \<Longrightarrow> list_all (\<lambda>ev. \<not> delivers_on c ev) evs \<Longrightarrow>
   promises (run rbc evs s) ! p = promises s ! p"
proof (induction evs arbitrary: s)
  case Nil
  show ?case by simp
next
  case (Cons ev evs)
  from Cons.prems have "promises (step rbc ev s) ! p = promises s ! p"
    by (simp add: owned_silent_step)
  moreover from Cons.prems have "owned p (\<lambda>cl. fst cl = c) (step rbc ev s)"
    by (simp add: owned_step)
  ultimately show ?case using Cons by simp
qed



subsection \<open>Consequences for a request\<close>

lemma requested_length:
  "length (promises (requested msg c l s)) = Suc (length (promises s))"
  by (simp add: requested_def)

lemma requested_listener_stays:
  "(c, l) \<in> set (listeners (run rbc evs (requested msg c l s)))"
proof -
  obtain extra where
    "listeners (run rbc evs (requested msg c l s)) = listeners (requested msg c l s) @ extra"
    using run_listeners_grow by blast
  then show ?thesis by (simp add: requested_def)
qed

lemma requested_pending_while_silent:
  assumes ok: "handles_ok s" and h: "handle l = length (promises s)"
    and quiet: "list_all (\<lambda>ev. \<not> delivers_on c ev) evs"
  shows "promises (run rbc evs (requested msg c l s)) ! length (promises s) = Pending"
proof -
  have "owned (length (promises s)) (\<lambda>cl. fst cl = c) (requested msg c l s)"
    using ok h by (intro owned_requested_new) simp_all
  then have "promises (run rbc evs (requested msg c l s)) ! length (promises s)
             = promises (requested msg c l s) ! length (promises s)"
    using quiet by (rule owned_silent_run)
  then show ?thesis by (simp add: requested_def)
qed

lemma requested_reply_after_silence:
  assumes ok: "handles_ok s" and h: "handle l = length (promises s)"
    and quiet: "list_all (\<lambda>ev. \<not> delivers_on c ev) evs"
  shows "promises (deliver c r e (run rbc evs (requested msg c l s))) ! length (promises s)
         = outcome l r e"
proof -
  let ?p = "length (promises s)"
  let ?t = "run rbc evs (requested msg c l s)"
  obtain extra where "listeners ?t = listeners (requested msg c l s) @ extra"
    using run_listeners_grow by blast
  then have ls: "listeners ?t = listeners s @ (c, l) # extra"
    by (simp add: requested_def)
  have pend: "promises ?t ! ?p = Pending"
    using ok h quiet by (rule requested_pending_while_silent)
  have "length (promises (requested msg c l s)) \<le> length (promises ?t)"
    by (rule run_length)
  then have len: "?p < length (promises ?t)"
    by (simp add: requested_length)
  let ?u = "fold (dispatch c r e) (listeners s) ?t"
  have "promises ?u ! ?p = promises ?t ! ?p"
    using handles_ok_fresh [OF ok] by (rule fold_dispatch_other)
  with pend have pend_u: "promises ?u ! ?p = Pending"
    by simp
  have len_u: "?p < length (promises ?u)"
    using len by (simp add: fold_dispatch_frame)
  let ?v = "dispatch c r e (c, l) ?u"
  have v: "promises ?v ! ?p = outcome l r e"
    using pend_u len_u h by (simp add: dispatch_def on_reply_settle settle_pending)
  then have "promises ?v ! ?p \<noteq> Pending"
    by simp
  then have "promises (fold (dispatch c r e) extra ?v) ! ?p = promises ?v ! ?p"
    by (rule fold_dispatch_settled)
  moreover have "deliver c r e ?t = fold (dispatch c r e) extra ?v"
    by (simp add: deliver_def ls)
  ultimately show ?thesis using v by simp
qed

lemma requested_settled_stays:
  assumes "promises (run rbc evs (requested msg c l s)) ! length (promises s) \<noteq> Pending"
  shows "promises (run rbc (evs @ extra) (requested msg c l s)) ! length (promises s)
         = promises (run rbc evs (requested msg c l s)) ! length (promises s)"
proof -
  have "length (promises (requested msg c l s)) \<le> length (promises (run rbc evs (requested msg c l s)))"
    by (rule run_length)
  then have "length (promises s) < length (promises (run rbc evs (requested msg c l s)))"
    by (simp add: requested_def)
  then show ?thesis using assms by (simp add: run_append run_settled)
qed


text \<open>The definitions unfolded when a concrete run is evaluated.\<close>

lemmas bridge_defs =
  enableAutostart_def disableAutostart_def autostartTaskExist_def getUserSettings_def
  saveUserSettings_def new_promise_def ipc_send_def ipc_on_def init_def
  deliver_def dispatch_def resolve_def reject_def settle_def

section \<open>Replies to a single call\<close>

text \<open>
  In the theorems below \<open>history\<close> is any sequence of earlier events, so the call is
  made in an arbitrary reachable state: other calls may be pending, and listeners of
  earlier calls are still registered. A reply is absent-error when its error argument is
  \<^verbatim>\<open>undefined\<close> or \<^verbatim>\<open>null\<close>, that is \<open>\<not> not_nullish error\<close>.
\<close>








text \<open>
  C6: after a call of \<^verbatim>\<open>saveUserSettings\<close>, and through any events \<open>evs\<close> that bring
  no message on its reply channel, the promise of the call is pending; the reply, when it
  carries no error, then fulfils it with \<^verbatim>\<open>undefined\<close>, whatever result payload the
  reply carries.
\<close>

theorem saveUserSettings_reply_settles_undefined:
  assumes "\<not> not_nullish error"
    and "list_all (\<lambda>ev. \<not> delivers_on (rbc SAVE_USER_SETTINGS) ev) evs"
  shows "promises (run rbc evs (snd (saveUserSettings rbc settings (run rbc history init))))
           ! fst (saveUserSettings rbc settings (run rbc history init))
         = Pending \<and>
         promises (deliver (rbc SAVE_USER_SETTINGS) result error
                     (run rbc evs (snd (saveUserSettings rbc settings (run rbc history init)))))
           ! fst (saveUserSettings rbc settings (run rbc history init))
         = Fulfilled Undefined"
  using absent_not_truthy [OF assms(1)] assms(2)
  by (simp add: saveUserSettings_requested
        requested_pending_while_silent [OF handles_ok_history]
        requested_reply_after_silence [OF handles_ok_history])

theorem saveUserSettings_reply_settles_undefined_witness:
  "\<not> not_nullish Null \<and>
   list_all (\<lambda>ev. \<not> delivers_on (reply_names SAVE_USER_SETTINGS) ev)
     [CallGetUserSettings None, Deliver (reply_names GET_USER_SETTINGS) dark_theme Undefined] \<and>
   promises (run reply_names
               [CallGetUserSettings None,
                Deliver (reply_names GET_USER_SETTINGS) dark_theme Undefined]
               (snd (saveUserSettings reply_names dark_theme
                  (run reply_names [CallEnableAutostart] init))))
     ! fst (saveUserSettings reply_names dark_theme (run reply_names [CallEnableAutostart] init))
   = Pending \<and>
   promises (deliver (reply_names SAVE_USER_SETTINGS) (Str ''saved'') Null
               (run reply_names
                  [CallGetUserSettings None,
                   Deliver (reply_names GET_USER_SETTINGS) dark_theme Undefined]
                  (snd (saveUserSettings reply_names dark_theme
                     (run reply_names [CallEnableAutostart] init)))))
     ! fst (saveUserSettings reply_names dark_theme (run reply_names [CallEnableAutostart] init))
   = Fulfilled Undefined"
proof -
  have h: "\<not> not_nullish Null"
    "list_all (\<lambda>ev. \<not> delivers_on (reply_names SAVE_USER_SETTINGS) ev)
       [CallGetUserSettings None, Deliver (reply_names GET_USER_SETTINGS) dark_theme Undefined]"
    by simp_all
  from saveUserSettings_reply_settles_undefined
    [where rbc = reply_names and error = Null and settings = dark_theme
       and history = "[CallEnableAutostart]" and result = "Str ''saved''"
       and evs = "[CallGetUserSettings None,
                   Deliver (reply_names GET_USER_SETTINGS) dark_theme Undefined]", OF h] h
  show ?thesis by simp
qed



section \<open>Messages and listeners\<close>

text \<open>
  C2, as stated, fails: the listener is registered with \<^verbatim>\<open>ipcRenderer.on\<close> and the
  file never removes a listener. After \<^verbatim>\<open>getUserSettings\<close> in the initial state and a
  reply that fulfils its promise, the listener of the call is still registered.
\<close>

theorem listener_outlives_settlement:
  "promises (run reply_names
               [CallGetUserSettings None,
                Deliver (reply_names GET_USER_SETTINGS) dark_theme Undefined] init) ! 0
   = Fulfilled dark_theme \<and>
   (reply_names GET_USER_SETTINGS, UserSettingsReply 0)
     \<in> set (listeners (run reply_names
               [CallGetUserSettings None,
                Deliver (reply_names GET_USER_SETTINGS) dark_theme Undefined] init))"
  by (simp add: bridge_defs)

text \<open>
  C2, amended: every request-response call, made in any state \<open>s\<close>, sends exactly one
  message and registers exactly one listener, on the reply channel of its operation;
  that listener is never deregistered: it is still registered after any sequence of
  events \<open>evs\<close> that follows the call, settlement included.
\<close>

theorem request_listener_is_never_removed:
  "sent (snd (autostartTaskExist rbc s)) = sent s @ [(GET_AUTOSTART_STATUS, [])] \<and>
   listeners (snd (autostartTaskExist rbc s))
     = listeners s @ [(rbc GET_AUTOSTART_STATUS, AutostartStatusReply (fst (autostartTaskExist rbc s)))] \<and>
   (rbc GET_AUTOSTART_STATUS, AutostartStatusReply (fst (autostartTaskExist rbc s)))
     \<in> set (listeners (run rbc evs (snd (autostartTaskExist rbc s)))) \<and>
   sent (snd (getUserSettings rbc route s))
     = sent s @ [(GET_USER_SETTINGS, [case route of None \<Rightarrow> Undefined | Some r \<Rightarrow> Str r])] \<and>
   listeners (snd (getUserSettings rbc route s))
     = listeners s @ [(rbc GET_USER_SETTINGS, UserSettingsReply (fst (getUserSettings rbc route s)))] \<and>
   (rbc GET_USER_SETTINGS, UserSettingsReply (fst (getUserSettings rbc route s)))
     \<in> set (listeners (run rbc evs (snd (getUserSettings rbc route s)))) \<and>
   sent (snd (saveUserSettings rbc settings s)) = sent s @ [(SAVE_USER_SETTINGS, [settings])] \<and>
   listeners (snd (saveUserSettings rbc settings s))
     = listeners s @ [(rbc SAVE_USER_SETTINGS, SaveSettingsReply (fst (saveUserSettings rbc settings s)))] \<and>
   (rbc SAVE_USER_SETTINGS, SaveSettingsReply (fst (saveUserSettings rbc settings s)))
     \<in> set (listeners (run rbc evs (snd (saveUserSettings rbc settings s))))"
  by (simp add: autostartTaskExist_requested getUserSettings_requested
        saveUserSettings_requested requested_listener_stays)
     (simp add: requested_def)

text \<open>
  C5: \<^verbatim>\<open>enableAutostart\<close> and \<^verbatim>\<open>disableAutostart\<close>, called in any state, return
  \<^verbatim>\<open>undefined\<close> and do nothing but send their one message. Whatever the privileged
  process (or anyone) does afterwards, as the events \<open>evs\<close>, the promises and
  listeners of the renderer are what they would be had the call not been made: nothing
  of the call can surface to the caller.
\<close>

theorem fire_and_forget_returns_nothing:
  "enableAutostart s = (Undefined, s\<lparr>sent := sent s @ [(ENABLE_AUTOSTART, [])]\<rparr>) \<and>
   disableAutostart s = (Undefined, s\<lparr>sent := sent s @ [(DISABLE_AUTOSTART, [])]\<rparr>) \<and>
   promises (run rbc evs (snd (enableAutostart s))) = promises (run rbc evs s) \<and>
   listeners (run rbc evs (snd (enableAutostart s))) = listeners (run rbc evs s) \<and>
   promises (run rbc evs (snd (disableAutostart s))) = promises (run rbc evs s) \<and>
   listeners (run rbc evs (snd (disableAutostart s))) = listeners (run rbc evs s)"
proof -
  have "promises (ipc_send c [] s) = promises s" and "listeners (ipc_send c [] s) = listeners s"
    for c
    by (simp_all add: ipc_send_def)
  from run_frame [OF this, of rbc evs]
  show ?thesis
    by (simp add: enableAutostart_def disableAutostart_def) (simp add: ipc_send_def)
qed

section \<open>Calls over time\<close>

text \<open>
  C7: after a request-response call, as long as no message arrives on the reply
  channel of its operation, the promise of the call stays pending, whatever other
  events \<open>evs\<close> take place (calls of any of the five functions, messages on other
  channels).
\<close>

theorem no_reply_no_settlement:
  "(list_all (\<lambda>ev. \<not> delivers_on (rbc GET_AUTOSTART_STATUS) ev) evs \<longrightarrow>
    promises (run rbc evs (snd (autostartTaskExist rbc (run rbc history init))))
      ! fst (autostartTaskExist rbc (run rbc history init)) = Pending) \<and>
   (list_all (\<lambda>ev. \<not> delivers_on (rbc GET_USER_SETTINGS) ev) evs \<longrightarrow>
    promises (run rbc evs (snd (getUserSettings rbc route (run rbc history init))))
      ! fst (getUserSettings rbc route (run rbc history init)) = Pending) \<and>
   (list_all (\<lambda>ev. \<not> delivers_on (rbc SAVE_USER_SETTINGS) ev) evs \<longrightarrow>
    promises (run rbc evs (snd (saveUserSettings rbc settings (run rbc history init))))
      ! fst (saveUserSettings rbc settings (run rbc history init)) = Pending)"
  by (simp add: autostartTaskExist_requested getUserSettings_requested
        saveUserSettings_requested requested_pending_while_silent [OF handles_ok_history])

theorem no_reply_no_settlement_witness:
  "list_all (\<lambda>ev. \<not> delivers_on (reply_names GET_AUTOSTART_STATUS) ev)
     [CallEnableAutostart, Deliver ''unrelated'' dark_theme Undefined] \<and>
   list_all (\<lambda>ev. \<not> delivers_on (reply_names GET_USER_SETTINGS) ev)
     [CallEnableAutostart, Deliver ''unrelated'' dark_theme Undefined] \<and>
   list_all (\<lambda>ev. \<not> delivers_on (reply_names SAVE_USER_SETTINGS) ev)
     [CallEnableAutostart, Deliver ''unrelated'' dark_theme Undefined] \<and>
   promises (run reply_names [CallEnableAutostart, Deliver ''unrelated'' dark_theme Undefined]
               (snd (autostartTaskExist reply_names (run reply_names [] init))))
     ! fst (autostartTaskExist reply_names (run reply_names [] init)) = Pending \<and>
   promises (run reply_names [CallEnableAutostart, Deliver ''unrelated'' dark_theme Undefined]
               (snd (getUserSettings reply_names None (run reply_names [] init))))
     ! fst (getUserSettings reply_names None (run reply_names [] init)) = Pending \<and>
   promises (run reply_names [CallEnableAutostart, Deliver ''unrelated'' dark_theme Undefined]
               (snd (saveUserSettings reply_names dark_theme (run reply_names [] init))))
     ! fst (saveUserSettings reply_names dark_theme (run reply_names [] init)) = Pending"
  using no_reply_no_settlement
    [of reply_names "[CallEnableAutostart, Deliver ''unrelated'' dark_theme Undefined]"
        "[]" None dark_theme]
  by simp


text \<open>
  C9: once the promise of a request-response call is settled, after the events \<open>evs\<close>,
  it keeps its state through every further event \<open>later\<close>, replies on its own reply
  channel included. The call may be made in any state \<open>s\<close>.
\<close>

theorem settled_promise_keeps_value:
  "(promises (run rbc evs (snd (autostartTaskExist rbc s))) ! fst (autostartTaskExist rbc s)
      \<noteq> Pending \<longrightarrow>
    promises (run rbc (evs @ later) (snd (autostartTaskExist rbc s)))
      ! fst (autostartTaskExist rbc s)
    = promises (run rbc evs (snd (autostartTaskExist rbc s))) ! fst (autostartTaskExist rbc s))
   \<and>
   (promises (run rbc evs (snd (getUserSettings rbc route s))) ! fst (getUserSettings rbc route s)
      \<noteq> Pending \<longrightarrow>
    promises (run rbc (evs @ later) (snd (getUserSettings rbc route s)))
      ! fst (getUserSettings rbc route s)
    = promises (run rbc evs (snd (getUserSettings rbc route s))) ! fst (getUserSettings rbc route s))
   \<and>
   (promises (run rbc evs (snd (saveUserSettings rbc settings s)))
      ! fst (saveUserSettings rbc settings s) \<noteq> Pending \<longrightarrow>
    promises (run rbc (evs @ later) (snd (saveUserSettings rbc settings s)))
      ! fst (saveUserSettings rbc settings s)
    = promises (run rbc evs (snd (saveUserSettings rbc settings s)))
      ! fst (saveUserSettings rbc settings s))"
  by (simp add: autostartTaskExist_requested getUserSettings_requested
        saveUserSettings_requested requested_settled_stays)

theorem settled_promise_keeps_value_witness:
  "promises (run reply_names
       [Deliver (reply_names GET_AUTOSTART_STATUS) Null Undefined,
        Deliver (reply_names GET_USER_SETTINGS) dark_theme Undefined,
        Deliver (reply_names SAVE_USER_SETTINGS) Undefined Undefined]
       (snd (autostartTaskExist reply_names init)))
     ! fst (autostartTaskExist reply_names init) \<noteq> Pending \<and>
   promises (run reply_names
       ([Deliver (reply_names GET_AUTOSTART_STATUS) Null Undefined,
         Deliver (reply_names GET_USER_SETTINGS) dark_theme Undefined,
         Deliver (reply_names SAVE_USER_SETTINGS) Undefined Undefined]
        @ [Deliver (reply_names GET_AUTOSTART_STATUS) dark_theme Undefined])
       (snd (autostartTaskExist reply_names init)))
     ! fst (autostartTaskExist reply_names init) = Fulfilled (Bool False) \<and>
   promises (run reply_names
       [Deliver (reply_names GET_AUTOSTART_STATUS) Null Undefined,
        Deliver (reply_names GET_USER_SETTINGS) dark_theme Undefined,
        Deliver (reply_names SAVE_USER_SETTINGS) Undefined Undefined]
       (snd (getUserSettings reply_names None init)))
     ! fst (getUserSettings reply_names None init) \<noteq> Pending \<and>
   promises (run reply_names
       [Deliver (reply_names GET_AUTOSTART_STATUS) Null Undefined,
        Deliver (reply_names GET_USER_SETTINGS) dark_theme Undefined,
        Deliver (reply_names SAVE_USER_SETTINGS) Undefined Undefined]
       (snd (saveUserSettings reply_names dark_theme init)))
     ! fst (saveUserSettings reply_names dark_theme init) \<noteq> Pending"
  using settled_promise_keeps_value
    [of reply_names
        "[Deliver (reply_names GET_AUTOSTART_STATUS) Null Undefined,
          Deliver (reply_names GET_USER_SETTINGS) dark_theme Undefined,
          Deliver (reply_names SAVE_USER_SETTINGS) Undefined Undefined]"
        init "[Deliver (reply_names GET_AUTOSTART_STATUS) dark_theme Undefined]"
        None dark_theme]
  by (simp add: bridge_defs)

end
